theory Spec2Isabelle
  imports Main "HOL-Library.Word"
begin

section \<open>Python byte strings\<close>

type_synonym byte = "8 word"
type_synonym bytes = "byte list"

datatype error = ValueError string | OverflowError string

text \<open>\<open>xs[a:b]\<close> for indices that are not negative: Python clips both to the length.\<close>

definition pyslice :: "'a list \<Rightarrow> nat \<Rightarrow> nat \<Rightarrow> 'a list" where
  "pyslice xs a b = take (b - a) (drop a xs)"

text \<open>\<open>xs[a:b] = ys\<close> on a bytearray, for indices that are not negative: the indices are
  clipped to the length, an empty range starts at \<open>a\<close>, and the bytes in the range are
  replaced by \<open>ys\<close> whatever its length.\<close>

definition pyslice_assign :: "'a list \<Rightarrow> nat \<Rightarrow> nat \<Rightarrow> 'a list \<Rightarrow> 'a list" where
  "pyslice_assign xs a b ys = take a xs @ ys @ drop (max a b) xs"

text \<open>\<open>bs * n\<close>\<close>

definition bytes_mul :: "bytes \<Rightarrow> nat \<Rightarrow> bytes" where
  "bytes_mul bs n = concat (replicate n bs)"

text \<open>\<open>int.from_bytes(bs, 'big')\<close>\<close>

definition int_from_bytes :: "bytes \<Rightarrow> nat" where
  "int_from_bytes bs = foldl (\<lambda>acc b. acc * 256 + unat b) 0 bs"

primrec big_endian :: "nat \<Rightarrow> nat \<Rightarrow> bytes" where
  "big_endian 0 v = []"
| "big_endian (Suc n) v = big_endian n (v div 256) @ [of_nat v]"

text \<open>\<open>v.to_bytes(n, 'big')\<close> for \<open>v\<close> not negative: OverflowError when \<open>v\<close> does not
  fit in \<open>n\<close> bytes.\<close>

definition int_to_bytes :: "nat \<Rightarrow> nat \<Rightarrow> error + bytes" where
  "int_to_bytes v n =
     (if v < 256 ^ n then Inr (big_endian n v)
      else Inl (OverflowError ''int too big to convert''))"

section \<open>Constants of ips_patch.py\<close>

definition OFFSET_SIZE :: nat where "OFFSET_SIZE = 3"
definition OFFSET_BITS :: nat where "OFFSET_BITS = OFFSET_SIZE * 8"
definition OFFSET_MAX :: nat where "OFFSET_MAX = 2 ^ OFFSET_BITS - 1"
definition SIZE_SIZE :: nat where "SIZE_SIZE = 2"
definition SIZE_BITS :: nat where "SIZE_BITS = SIZE_SIZE * 8"
definition SIZE_MAX :: nat where "SIZE_MAX = 2 ^ SIZE_BITS - 1"
definition RLE_SIZE_SIZE :: nat where "RLE_SIZE_SIZE = 2"
definition RLE_SIZE_BITS :: nat where "RLE_SIZE_BITS = RLE_SIZE_SIZE * 8"
definition RLE_SIZE_MAX :: nat where "RLE_SIZE_MAX = 2 ^ RLE_SIZE_BITS - 1"

text \<open>\<open>b'PATCH'\<close> and \<open>b'EOF'\<close>\<close>

definition PATCH :: bytes where "PATCH = [0x50, 0x41, 0x54, 0x43, 0x48]"
definition EOF :: bytes where "EOF = [0x45, 0x4F, 0x46]"

section \<open>class IPSPatchRecord\<close>

record IPSPatchRecord =
  offset :: nat
  data :: bytes
  rle_size :: nat

text \<open>\<open>__init__\<close>: the three range checks, in the order of the source. The two integer
  arguments are Python integers; a record that is built holds them as naturals, since
  the checks have excluded the negative ones.\<close>

definition IPSPatchRecord_init :: "int \<Rightarrow> bytes \<Rightarrow> int \<Rightarrow> error + IPSPatchRecord" where
  "IPSPatchRecord_init off bs rle =
     (if \<not> (0 \<le> off \<and> off \<le> int OFFSET_MAX)
      then Inl (ValueError ''Offset must be a 24 bit unsigned value.'')
      else if length bs > SIZE_MAX
      then Inl (ValueError ''Record data size should fit in 16 bits.'')
      else if \<not> (0 \<le> rle \<and> rle \<le> int RLE_SIZE_MAX)
      then Inl (ValueError ''RLE size must be a 16 bit unsigned value.'')
      else Inr \<lparr>offset = nat off, data = bs, rle_size = nat rle\<rparr>)"

definition is_rle :: "IPSPatchRecord \<Rightarrow> bool" where
  "is_rle r = (rle_size r > 0)"

definition size_field :: "IPSPatchRecord \<Rightarrow> nat" where
  "size_field r = (if is_rle r then 0 else length (data r))"

definition applied_size :: "IPSPatchRecord \<Rightarrow> nat" where
  "applied_size r = (if is_rle r then rle_size r else size_field r)"

text \<open>\<open>IPSPatchRecord.from_bytes\<close>: the slices are clipped, so a short span is read as
  far as it goes.\<close>

definition IPSPatchRecord_from_bytes :: "bytes \<Rightarrow> error + IPSPatchRecord" where
  "IPSPatchRecord_from_bytes bs =
     (let i = 0;
          off = int_from_bytes (pyslice bs i (i + OFFSET_SIZE));
          i = i + OFFSET_SIZE;
          sz = int_from_bytes (pyslice bs i (i + SIZE_SIZE));
          i = i + SIZE_SIZE
      in if sz > 0
         then IPSPatchRecord_init (int off) (pyslice bs i (i + sz)) 0
         else (let rle = int_from_bytes (pyslice bs i (i + RLE_SIZE_SIZE));
                   i = i + RLE_SIZE_SIZE
               in IPSPatchRecord_init (int off) (pyslice bs i (i + 1)) (int rle)))"

text \<open>\<open>IPSPatchRecord.to_bytes\<close>\<close>

definition IPSPatchRecord_to_bytes :: "IPSPatchRecord \<Rightarrow> error + bytes" where
  "IPSPatchRecord_to_bytes r =
     (case int_to_bytes (offset r) OFFSET_SIZE of
        Inl e \<Rightarrow> Inl e
      | Inr ob \<Rightarrow>
          if is_rle r
          then (case int_to_bytes (rle_size r) RLE_SIZE_SIZE of
                  Inl e \<Rightarrow> Inl e
                | Inr rb \<Rightarrow>
                    Inr (ob @ bytes_mul [0] SIZE_SIZE @ rb
                         @ bytes_mul (pyslice (data r) 0 1) (rle_size r)))
          else (case int_to_bytes (length (data r)) SIZE_SIZE of
                  Inl e \<Rightarrow> Inl e
                | Inr sb \<Rightarrow> Inr (ob @ sb @ data r)))"

text \<open>\<open>IPSPatchRecord.apply\<close>: the bytearray after the call.\<close>

definition IPSPatchRecord_apply :: "IPSPatchRecord \<Rightarrow> bytes \<Rightarrow> bytes" where
  "IPSPatchRecord_apply r buf =
     (let i = offset r
      in if is_rle r
         then pyslice_assign buf i (i + rle_size r) (bytes_mul (pyslice (data r) 0 1) (rle_size r))
         else pyslice_assign buf i (i + size_field r) (data r))"

text \<open>\<open>IPSPatchRecord.__len__\<close>\<close>

definition IPSPatchRecord_len :: "IPSPatchRecord \<Rightarrow> nat" where
  "IPSPatchRecord_len r =
     (if is_rle r then OFFSET_SIZE + SIZE_SIZE + RLE_SIZE_SIZE + 1
      else OFFSET_SIZE + SIZE_SIZE + length (data r))"

section \<open>class IPSPatch\<close>

record IPSPatch =
  records :: "IPSPatchRecord list"

text \<open>The loop of \<open>IPSPatch.from_bytes\<close>; \<open>None\<close> stands for a loop that never ends.\<close>

partial_function (option) from_bytes_loop ::
  "bytes \<Rightarrow> nat \<Rightarrow> IPSPatchRecord list \<Rightarrow> (error + IPSPatchRecord list) option" where
  "from_bytes_loop buf i recs =
     (if pyslice buf i (i + length EOF) = EOF then Some (Inr recs)
      else (let view = drop i buf
            in if view = [] then Some (Inl (ValueError ''Invalid patch format.''))
               else (case IPSPatchRecord_from_bytes view of
                       Inl e \<Rightarrow> Some (Inl e)
                     | Inr r \<Rightarrow> from_bytes_loop buf (i + IPSPatchRecord_len r) (recs @ [r]))))"

definition IPSPatch_from_bytes :: "bytes \<Rightarrow> (error + IPSPatch) option" where
  "IPSPatch_from_bytes buf =
     (let i = 0
      in if pyslice buf i (i + length PATCH) \<noteq> PATCH
         then Some (Inl (ValueError ''Invalid patch format.''))
         else (case from_bytes_loop buf (i + length PATCH) [] of
                 None \<Rightarrow> None
               | Some (Inl e) \<Rightarrow> Some (Inl e)
               | Some (Inr recs) \<Rightarrow> Some (Inr \<lparr>records = recs\<rparr>)))"

text \<open>\<open>IPSPatch.to_bytes\<close>\<close>

fun to_bytes_loop :: "IPSPatchRecord list \<Rightarrow> bytes \<Rightarrow> error + bytes" where
  "to_bytes_loop [] acc = Inr acc"
| "to_bytes_loop (r # rs) acc =
     (case IPSPatchRecord_to_bytes r of
        Inl e \<Rightarrow> Inl e
      | Inr b \<Rightarrow> to_bytes_loop rs (acc @ b))"

definition IPSPatch_to_bytes :: "IPSPatch \<Rightarrow> error + bytes" where
  "IPSPatch_to_bytes p =
     (case to_bytes_loop (records p) PATCH of
        Inl e \<Rightarrow> Inl e
      | Inr d \<Rightarrow> Inr (d @ EOF))"

text \<open>\<open>IPSPatch.apply\<close>: the value returned, and the caller's buffer after the call.\<close>

definition IPSPatch_apply :: "IPSPatch \<Rightarrow> bytes \<Rightarrow> bool \<Rightarrow> bytes option \<times> bytes" where
  "IPSPatch_apply p buf mutate =
     (let patched = foldl (\<lambda>d r. IPSPatchRecord_apply r d) buf (records p)
      in if \<not> mutate then (Some patched, buf) else (None, patched))"

text \<open>\<open>find_first\<close> of \<open>IPSPatch.from_diff\<close>: the index of the first pair of bytes, from
  \<open>start\<close> up to \<open>stop\<close>, on which the comparison holds; \<open>stop\<close> when there is none.
  \<open>zip\<close> ends with the shorter of the two slices.\<close>

definition find_first ::
  "bytes \<Rightarrow> bytes \<Rightarrow> nat \<Rightarrow> nat \<Rightarrow> (byte \<Rightarrow> byte \<Rightarrow> bool) \<Rightarrow> nat" where
  "find_first sview dview start stop cmp =
     (case find (\<lambda>x. cmp (fst (snd x)) (snd (snd x)))
                (enumerate start (zip (pyslice sview start stop) (pyslice dview start stop))) of
        Some x \<Rightarrow> fst x
      | None \<Rightarrow> stop)"

declare from_bytes_loop.simps [code]

subsection \<open>What \<open>find_first\<close> returns\<close>

lemma scan_nth:
  assumes "k < length (zip (pyslice s start stop) (pyslice d start stop))"
  shows "enumerate start (zip (pyslice s start stop) (pyslice d start stop)) ! k
           = (start + k, (s ! (start + k), d ! (start + k)))"
  using assms by (auto simp add: nth_enumerate_eq pyslice_def)

lemma scan_length:
  "length (zip (pyslice s start stop) (pyslice d start stop))
     = min (stop - start) (min (length s - start) (length d - start))"
  unfolding pyslice_def length_zip length_take length_drop by linarith

lemma find_first_cases:
  fixes s d start stop c
  defines "n \<equiv> min (stop - start) (min (length s - start) (length d - start))"
  obtains (found) k where "find_first s d start stop c = start + k" "k < n"
      "c (s ! (start + k)) (d ! (start + k))"
      "\<forall>j<k. \<not> c (s ! (start + j)) (d ! (start + j))"
  | (none) "find_first s d start stop c = stop"
      "\<forall>j<n. \<not> c (s ! (start + j)) (d ! (start + j))"
proof -
  let ?zs = "enumerate start (zip (pyslice s start stop) (pyslice d start stop))"
  let ?P = "\<lambda>x. c (fst (snd x)) (snd (snd x))"
  have len: "length ?zs = n"
    unfolding n_def length_enumerate by (rule scan_length)
  have nth: "\<And>k. k < n \<Longrightarrow> ?zs ! k = (start + k, (s ! (start + k), d ! (start + k)))"
    using scan_nth[of _ s start stop d] unfolding scan_length n_def by blast
  show thesis
  proof (cases "find ?P ?zs")
    case None
    then have "\<forall>x\<in>set ?zs. \<not> ?P x"
      unfolding find_None_iff by blast
    then have "\<forall>j<n. \<not> ?P (?zs ! j)"
      using len by (metis nth_mem)
    then have "\<forall>j<n. \<not> c (s ! (start + j)) (d ! (start + j))"
      using nth by simp
    moreover have "find_first s d start stop c = stop"
      using None by (simp add: find_first_def)
    ultimately show thesis using none by blast
  next
    case (Some x)
    then obtain k where k: "k < length ?zs" "?P (?zs ! k)" "x = ?zs ! k" "\<forall>j<k. \<not> ?P (?zs ! j)"
      unfolding find_Some_iff by blast
    have kn: "k < n" using k(1) unfolding len .
    have "find_first s d start stop c = start + k"
      using Some k(3) nth[OF kn] by (simp add: find_first_def)
    moreover have "c (s ! (start + k)) (d ! (start + k))"
      using k(2) nth[OF kn] by simp
    moreover have "\<forall>j<k. \<not> c (s ! (start + j)) (d ! (start + j))"
    proof (intro allI impI)
      fix j assume "j < k"
      then have "j < n" "\<not> ?P (?zs ! j)" using kn k(4) by auto
      then show "\<not> c (s ! (start + j)) (d ! (start + j))" using nth by simp
    qed
    ultimately show thesis using kn found by blast
  qed
qed

lemma find_first_le: "start \<le> stop \<Longrightarrow> find_first s d start stop c \<le> stop"
  by (rule find_first_cases[of s d start stop c]) auto

lemma find_first_ge: "start \<le> stop \<Longrightarrow> start \<le> find_first s d start stop c"
  by (rule find_first_cases[of s d start stop c]) auto

lemma find_first_found:
  assumes "find_first s d start stop c < stop"
  shows "find_first s d start stop c < length s \<and> find_first s d start stop c < length d \<and>
     c (s ! find_first s d start stop c) (d ! find_first s d start stop c)"
proof (rule find_first_cases[of s d start stop c], goal_cases)
  case (1 k)
  then show ?case by auto
next
  case 2
  then show ?case using assms by simp
qed

lemma find_first_before:
  assumes "start \<le> j" "j < find_first s d start stop c" "j < length s" "j < length d" "start \<le> stop"
  shows "\<not> c (s ! j) (d ! j)"
proof (rule find_first_cases[of s d start stop c], goal_cases)
  case (1 k)
  then have "j - start < k" using assms by simp
  then have "\<not> c (s ! (start + (j - start))) (d ! (start + (j - start)))" using 1(4) by blast
  then show ?thesis using assms by simp
next
  case 2
  then have "j - start < min (stop - start) (min (length s - start) (length d - start))"
    using assms by linarith
  then have "\<not> c (s ! (start + (j - start))) (d ! (start + (j - start)))" using 2(2) by blast
  then show ?thesis using assms by simp
qed

subsection \<open>\<open>IPSPatch.from_diff\<close>\<close>

lemma SIZE_MAX_val: "SIZE_MAX = 65535"
  by (simp add: SIZE_MAX_def SIZE_BITS_def SIZE_SIZE_def)

text \<open>One round of the first loop moves \<open>i\<close> forward, whatever the bytes at \<open>i\<close>.\<close>

lemma diff_step_advances:
  assumes "i < length src"
  shows "i < find_first src dest (find_first src dest i (min (length src) (i + SIZE_MAX)) (=))
               (length src) (\<noteq>)"
proof -
  let ?e = "min (length src) (i + SIZE_MAX)"
  let ?j = "find_first src dest i ?e (=)"
  let ?k = "find_first src dest ?j (length src) (\<noteq>)"
  have ie: "i < ?e" using assms by (simp add: SIZE_MAX_val)
  have ij: "i \<le> ?j" and je: "?j \<le> ?e"
    using ie find_first_ge[of i ?e] find_first_le[of i ?e] by simp_all
  have jk: "?j \<le> ?k"
    using je find_first_ge[of ?j "length src"] by simp
  show ?thesis
  proof (cases "?j = i")
    case False
    then show ?thesis using ij jk by linarith
  next
    case True
    then have "?j < ?e" using ie by simp
    then have eq: "src ! ?j = dest ! ?j"
      using find_first_found[of src dest i ?e "(=)"] by blast
    have "?k \<noteq> i"
    proof
      assume ki: "?k = i"
      then have "?k < length src" using assms by simp
      then have "src ! ?k \<noteq> dest ! ?k"
        using find_first_found[of src dest ?j "length src" "(\<noteq>)"] by blast
      then show False using eq ki True by simp
    qed
    then show ?thesis using jk True by linarith
  qed
qed

text \<open>The first loop of \<open>from_diff\<close>, over the bytes that both buffers have. It
  returns the values of \<open>i\<close>, \<open>diff_start\<close> and the records when it ends.\<close>

function diff_loop1 ::
  "bytes \<Rightarrow> bytes \<Rightarrow> nat \<Rightarrow> nat \<Rightarrow> IPSPatchRecord list
     \<Rightarrow> error + (nat \<times> nat \<times> IPSPatchRecord list)" where
  "diff_loop1 src dest i diff_start recs =
     (if i < length src
      then (let diff_end = find_first src dest i (min (length src) (i + SIZE_MAX)) (=)
            in case IPSPatchRecord_init (int diff_start) (pyslice dest diff_start diff_end) 0 of
                 Inl e \<Rightarrow> Inl e
               | Inr r \<Rightarrow>
                   (let i' = find_first src dest diff_end (length src) (\<noteq>)
                    in diff_loop1 src dest i' i' (recs @ [r])))
      else Inr (i, diff_start, recs))"
  by pat_completeness auto
termination
proof (relation "measure (\<lambda>(src, dest, i, diff_start, recs). length src - i)", goal_cases)
  case 1
  show ?case by simp
next
  case (2 src dest i diff_start recs diff_end r i')
  then show ?case
    using diff_step_advances[of i src dest] by simp
qed

text \<open>The second loop, over the bytes of \<open>dest\<close> after the end of \<open>src\<close>.\<close>

function diff_loop2 ::
  "bytes \<Rightarrow> nat \<Rightarrow> nat \<Rightarrow> IPSPatchRecord list \<Rightarrow> error + IPSPatchRecord list" where
  "diff_loop2 dest i diff_start recs =
     (if i < length dest
      then (let diff_end = min (length dest) (i + SIZE_MAX)
            in case IPSPatchRecord_init (int diff_start) (pyslice dest diff_start diff_end) 0 of
                 Inl e \<Rightarrow> Inl e
               | Inr r \<Rightarrow> diff_loop2 dest diff_end diff_end (recs @ [r]))
      else Inr recs)"
  by pat_completeness auto
termination
  by (relation "measure (\<lambda>(dest, i, diff_start, recs). length dest - i)")
     (auto simp: SIZE_MAX_val)

definition IPSPatch_from_diff :: "bytes \<Rightarrow> bytes \<Rightarrow> error + IPSPatch" where
  "IPSPatch_from_diff src dest =
     (let i = find_first src dest 0 (length src) (\<noteq>)
      in case diff_loop1 src dest i i [] of
           Inl e \<Rightarrow> Inl e
         | Inr (i, diff_start, recs) \<Rightarrow>
             (case diff_loop2 dest i diff_start recs of
                Inl e \<Rightarrow> Inl e
              | Inr recs \<Rightarrow> Inr \<lparr>records = recs\<rparr>))"

declare diff_loop1.simps [simp del]
declare diff_loop2.simps [simp del]

section \<open>Constants and byte string helpers, evaluated\<close>

lemma OFFSET_MAX_val: "OFFSET_MAX = 16777215"
  by (simp add: OFFSET_MAX_def OFFSET_BITS_def OFFSET_SIZE_def)

lemma RLE_SIZE_MAX_val: "RLE_SIZE_MAX = 65535"
  by (simp add: RLE_SIZE_MAX_def RLE_SIZE_BITS_def RLE_SIZE_SIZE_def)

lemma big_endian_2: "big_endian 2 v = [of_nat (v div 256), of_nat v]"
  by (simp add: numeral_2_eq_2)

lemma big_endian_3: "big_endian 3 v = [of_nat (v div 256 div 256), of_nat (v div 256), of_nat v]"
  by (simp add: numeral_3_eq_3)

lemma bytes_mul_0: "bytes_mul bs 0 = []"
  by (simp add: bytes_mul_def)

lemma bytes_mul_Suc: "bytes_mul bs (Suc n) = bs @ bytes_mul bs n"
  by (simp add: bytes_mul_def)

lemma bytes_mul_2: "bytes_mul bs 2 = bs @ bs"
  by (simp add: bytes_mul_def numeral_2_eq_2)

lemmas ips_consts =
  OFFSET_SIZE_def SIZE_SIZE_def RLE_SIZE_SIZE_def OFFSET_MAX_val SIZE_MAX_val RLE_SIZE_MAX_val
  PATCH_def EOF_def

section \<open>The end-to-end example\<close>

lemma example_diff:
  "IPSPatch_from_diff [0, 0, 0, 0, 0] [0, 1, 1, 0, 0]
     = Inr \<lparr>records = [\<lparr>offset = 1, data = [1, 1], rle_size = 0\<rparr>]\<rparr>"
  by (simp add: IPSPatch_from_diff_def diff_loop1.simps diff_loop2.simps find_first_def
        pyslice_def IPSPatchRecord_init_def ips_consts)

lemma example_to_bytes:
  "IPSPatch_to_bytes \<lparr>records = [\<lparr>offset = 1, data = [1, 1], rle_size = 0\<rparr>]\<rparr>
     = Inr (PATCH @ [0, 0, 1] @ [0, 2] @ [1, 1] @ EOF)"
  by (simp add: IPSPatch_to_bytes_def IPSPatchRecord_to_bytes_def int_to_bytes_def is_rle_def
        big_endian_2 big_endian_3 ips_consts)

lemma example_apply:
  "IPSPatch_apply \<lparr>records = [\<lparr>offset = 1, data = [1, 1], rle_size = 0\<rparr>]\<rparr>
        [0, 0, 0, 0, 0] False
     = (Some [0, 1, 1, 0, 0], [0, 0, 0, 0, 0])"
  by (simp add: IPSPatch_apply_def IPSPatchRecord_apply_def pyslice_assign_def is_rle_def
        size_field_def)

text \<open>C8. From five zero bytes to \<open>00 01 01 00 00\<close>: the diff is one record, not RLE, at
  offset 1 with the data \<open>01 01\<close>; the patch is written as \<open>PATCH\<close>, \<open>00 00 01\<close>,
  \<open>00 02\<close>, \<open>01 01\<close>, \<open>EOF\<close>; and applying it to the source gives the target (the
  source is left as it was).\<close>

theorem end_to_end_example:
  "IPSPatch_from_diff [0, 0, 0, 0, 0] [0, 1, 1, 0, 0]
     = Inr \<lparr>records = [\<lparr>offset = 1, data = [1, 1], rle_size = 0\<rparr>]\<rparr>
   \<and> is_rle \<lparr>offset = 1, data = [1, 1], rle_size = 0\<rparr> = False
   \<and> IPSPatch_to_bytes \<lparr>records = [\<lparr>offset = 1, data = [1, 1], rle_size = 0\<rparr>]\<rparr>
     = Inr ([0x50, 0x41, 0x54, 0x43, 0x48] @ [0, 0, 1] @ [0, 2] @ [1, 1] @ [0x45, 0x4F, 0x46])
   \<and> IPSPatch_apply \<lparr>records = [\<lparr>offset = 1, data = [1, 1], rle_size = 0\<rparr>]\<rparr>
        [0, 0, 0, 0, 0] False
     = (Some [0, 1, 1, 0, 0], [0, 0, 0, 0, 0])"
  using example_diff example_to_bytes example_apply
  by (simp add: is_rle_def PATCH_def EOF_def)

section \<open>What the constructor checks\<close>

lemma init_Inr_iff:
  "IPSPatchRecord_init off bs rle = Inr r \<longleftrightarrow>
     0 \<le> off \<and> off \<le> 16777215 \<and> length bs \<le> 65535 \<and> 0 \<le> rle \<and> rle \<le> 65535
     \<and> r = \<lparr>offset = nat off, data = bs, rle_size = nat rle\<rparr>"
  by (auto simp: IPSPatchRecord_init_def ips_consts)

lemma init_Inl_iff:
  "(\<exists>e. IPSPatchRecord_init off bs rle = Inl e) \<longleftrightarrow>
     off < 0 \<or> 16777215 < off \<or> 65535 < length bs \<or> rle < 0 \<or> 65535 < rle"
  by (auto simp: IPSPatchRecord_init_def ips_consts)

text \<open>C5, as the claim states it, fails: a record with no data and an RLE size of 0 is
  built, and it is not an RLE record.\<close>

theorem empty_literal_record_counterexample:
  "IPSPatchRecord_init 0 [] 0 = Inr \<lparr>offset = 0, data = [], rle_size = 0\<rparr>
   \<and> is_rle \<lparr>offset = 0, data = [], rle_size = 0\<rparr> = False"
  by (simp add: init_Inr_iff is_rle_def)

text \<open>C5, amended. The constructor rejects a record exactly when the offset is outside
  0..2^24-1, the data is longer than 65535 bytes, or the RLE size is outside 0..65535.
  So a record with no data and an RLE size of 0 is accepted at every offset in range.\<close>

theorem init_checks_ranges_only:
  "((\<exists>e. IPSPatchRecord_init off bs rle = Inl e) \<longleftrightarrow>
      off < 0 \<or> 16777215 < off \<or> 65535 < length bs \<or> rle < 0 \<or> 65535 < rle)
   \<and> (0 \<le> off \<and> off \<le> 16777215 \<longrightarrow>
        IPSPatchRecord_init off [] 0 = Inr \<lparr>offset = nat off, data = [], rle_size = 0\<rparr>)"
  using init_Inl_iff [of off bs rle] by (simp add: init_Inr_iff)

theorem init_checks_ranges_only_witness:
  "(\<exists>e. IPSPatchRecord_init (2 ^ 24) [] 0 = Inl e)
   \<and> IPSPatchRecord_init 7 [] 0 = Inr \<lparr>offset = 7, data = [], rle_size = 0\<rparr>"
  using init_checks_ranges_only [of "2 ^ 24" "[]" 0] init_checks_ranges_only [of 7 "[]" 0]
  by simp

section \<open>Decoding one record\<close>

lemma int_from_bytes_snoc: "int_from_bytes (bs @ [b]) = int_from_bytes bs * 256 + unat b"
  by (simp add: int_from_bytes_def)

lemma int_from_bytes_bound: "int_from_bytes bs < 256 ^ length bs"
proof (induction bs rule: rev_induct)
  case Nil
  show ?case by (simp add: int_from_bytes_def)
next
  case (snoc b bs)
  have "unat b < 256" using unsigned_less[of b, where ?'a = nat] by simp
  then show ?case using snoc by (simp add: int_from_bytes_snoc)
qed

lemma int_from_bytes_le:
  assumes "length bs \<le> n"
  shows "int_from_bytes bs < 256 ^ n"
proof -
  have "(256::nat) ^ length bs \<le> 256 ^ n" using assms by (simp add: power_increasing)
  then show ?thesis using int_from_bytes_bound[of bs] by linarith
qed

lemma length_pyslice: "length (pyslice xs a b) = min (b - a) (length xs - a)"
  by (simp add: pyslice_def)

lemma offset_field_bound: "int_from_bytes (pyslice bs 0 3) \<le> 16777215"
  using int_from_bytes_le[of "pyslice bs 0 3" 3] by (simp add: length_pyslice)

lemma size_field_bound: "int_from_bytes (pyslice bs a (a + 2)) \<le> 65535"
  using int_from_bytes_le[of "pyslice bs a (a + 2)" 2] by (simp add: length_pyslice)

lemma from_bytes_eq:
  "IPSPatchRecord_from_bytes bs =
     Inr (if 0 < int_from_bytes (pyslice bs 3 5)
          then \<lparr>offset = int_from_bytes (pyslice bs 0 3),
                data = pyslice bs 5 (5 + int_from_bytes (pyslice bs 3 5)), rle_size = 0\<rparr>
          else \<lparr>offset = int_from_bytes (pyslice bs 0 3),
                data = pyslice bs 7 8, rle_size = int_from_bytes (pyslice bs 5 7)\<rparr>)"
proof -
  have o: "int_from_bytes (pyslice bs 0 3) \<le> 16777215" by (rule offset_field_bound)
  have s: "int_from_bytes (pyslice bs 3 5) \<le> 65535" using size_field_bound[of bs 3] by simp
  have r: "int_from_bytes (pyslice bs 5 7) \<le> 65535" using size_field_bound[of bs 5] by simp
  have l: "length (pyslice bs 5 (5 + int_from_bytes (pyslice bs 3 5))) \<le> 65535"
    using s by (simp add: length_pyslice)
  have l1: "length (pyslice bs 7 8) \<le> 65535" by (simp add: length_pyslice)
  show ?thesis
    using o s r l l1
    by (simp add: IPSPatchRecord_from_bytes_def Let_def init_Inr_iff
         OFFSET_SIZE_def SIZE_SIZE_def RLE_SIZE_SIZE_def)
qed

text \<open>The number of bytes that the fields of the span declare for its record: 3 + 2 + size
  for a size field above 0, 3 + 2 + 2 + 1 for an RLE record.\<close>

definition declared_length :: "bytes \<Rightarrow> nat" where
  "declared_length bs =
     (if 0 < int_from_bytes (pyslice bs 3 5) then 3 + 2 + int_from_bytes (pyslice bs 3 5)
      else 3 + 2 + 2 + 1)"

text \<open>The loop of \<open>IPSPatch.from_bytes\<close> on a span that is shorter than it declares: the
  record that is returned moves the cursor to the end of the buffer or past it, and the
  loop fails there.\<close>

lemma from_bytes_loop_past_end:
  assumes "length buf \<le> j"
  shows "from_bytes_loop buf j recs = Some (Inl (ValueError ''Invalid patch format.''))"
  using assms by (subst from_bytes_loop.simps) (simp add: pyslice_def EOF_def)

lemma from_bytes_loop_record:
  assumes "pyslice buf i (i + length EOF) \<noteq> EOF" "drop i buf \<noteq> []"
    "IPSPatchRecord_from_bytes (drop i buf) = Inr r"
  shows "from_bytes_loop buf i recs = from_bytes_loop buf (i + IPSPatchRecord_len r) (recs @ [r])"
  using assms by (subst from_bytes_loop.simps) (simp add: Let_def)

lemma int_from_bytes_Nil: "int_from_bytes [] = 0"
  by (simp add: int_from_bytes_def)

lemma len_literal_record:
  "IPSPatchRecord_len \<lparr>offset = off, data = bs, rle_size = 0\<rparr> = 5 + length bs"
  by (simp add: IPSPatchRecord_len_def is_rle_def OFFSET_SIZE_def SIZE_SIZE_def)

lemma len_rle_record:
  "0 < n \<Longrightarrow> IPSPatchRecord_len \<lparr>offset = off, data = bs, rle_size = n\<rparr> = 8"
  by (simp add: IPSPatchRecord_len_def is_rle_def OFFSET_SIZE_def SIZE_SIZE_def RLE_SIZE_SIZE_def)

lemma short_view_record:
  assumes "length view \<le> 2"
  shows "IPSPatchRecord_from_bytes view
           = Inr \<lparr>offset = int_from_bytes (pyslice view 0 3), data = [], rle_size = 0\<rparr>"
  using assms by (simp add: from_bytes_eq pyslice_def int_from_bytes_Nil)

lemma truncated_record_fails:
  assumes ne: "drop i buf \<noteq> []"
    and eof: "pyslice buf i (i + length EOF) \<noteq> EOF"
    and short: "length (drop i buf) < declared_length (drop i buf)"
  shows "from_bytes_loop buf i recs = Some (Inl (ValueError ''Invalid patch format.''))"
proof -
  define view where "view = drop i buf"
  define sz where "sz = int_from_bytes (pyslice view 3 5)"
  define off where "off = int_from_bytes (pyslice view 0 3)"
  have i: "i < length buf" and lv: "length view = length buf - i"
    using ne by (simp_all add: view_def)
  show ?thesis
  proof (cases "0 < sz")
    case True
    then have s: "length view < 5 + sz"
      using short by (simp add: declared_length_def view_def sz_def)
    have r: "IPSPatchRecord_from_bytes view
               = Inr \<lparr>offset = off, data = pyslice view 5 (5 + sz), rle_size = 0\<rparr>"
      using True by (simp add: from_bytes_eq sz_def off_def)
    have "length buf \<le> i + (5 + length (pyslice view 5 (5 + sz)))"
      using s lv i by (simp add: length_pyslice)
    then show ?thesis
      using from_bytes_loop_record [OF eof ne r [unfolded view_def], of recs]
      by (simp add: len_literal_record from_bytes_loop_past_end view_def)
  next
    case False
    then have s: "length view < 8"
      using short by (simp add: declared_length_def view_def sz_def)
    define rle where "rle = int_from_bytes (pyslice view 5 7)"
    have d: "pyslice view 7 8 = []"
      using s by (simp add: pyslice_def)
    have r: "IPSPatchRecord_from_bytes view = Inr \<lparr>offset = off, data = [], rle_size = rle\<rparr>"
      using False d by (simp add: from_bytes_eq sz_def off_def rle_def)
    show ?thesis
    proof (cases "0 < rle")
      case True
      have "length buf \<le> i + 8" using s lv by linarith
      then show ?thesis
        using from_bytes_loop_record [OF eof ne r [unfolded view_def], of recs] True
        by (simp add: len_rle_record from_bytes_loop_past_end)
    next
      case rle0: False
      have step: "from_bytes_loop buf i recs
                    = from_bytes_loop buf (i + 5) (recs @ [\<lparr>offset = off, data = [], rle_size = 0\<rparr>])"
        using from_bytes_loop_record [OF eof ne r [unfolded view_def], of recs] rle0
        by (simp add: len_literal_record)
      show ?thesis
      proof (cases "length buf \<le> i + 5")
        case True
        then show ?thesis using step by (simp add: from_bytes_loop_past_end)
      next
        case False
        then have l2: "length (drop (i + 5) buf) \<le> 2" and ne2: "drop (i + 5) buf \<noteq> []"
          using s lv by simp_all
        have "length (pyslice buf (i + 5) (i + 5 + length EOF)) \<le> 2"
          using l2 by (simp add: length_pyslice)
        then have eof2: "pyslice buf (i + 5) (i + 5 + length EOF) \<noteq> EOF"
          by (auto simp: EOF_def)
        have "length buf \<le> i + 5 + 5" using s lv by linarith
        then show ?thesis
          using step from_bytes_loop_record [OF eof2 ne2 short_view_record [OF l2]]
          by (simp add: len_literal_record from_bytes_loop_past_end)
      qed
    qed
  qed
qed

text \<open>C4, as the claim states it, fails: the span \<open>00 00 01 00 05 01\<close> declares five
  bytes of data and holds one, and \<open>IPSPatchRecord.from_bytes\<close> returns a record with
  that one byte.\<close>

theorem truncated_record_is_decoded_counterexample:
  "IPSPatchRecord_from_bytes [0, 0, 1, 0, 5, 1] = Inr \<lparr>offset = 1, data = [1], rle_size = 0\<rparr>
   \<and> int_from_bytes (pyslice [0, 0, 1, 0, 5, 1] 3 5) = 5
   \<and> length [0, 0, 1, 0, 5, 1 :: byte] < 5 + 5"
  by (simp add: from_bytes_eq pyslice_def int_from_bytes_def)

text \<open>C4, amended. \<open>IPSPatchRecord.from_bytes\<close> never fails, whatever the length of the
  span: the offset, the size field and the RLE size are read from the bytes that are
  there (none reads as 0), and the data is the span from byte 5 (from byte 7 for the fill
  byte) cut at the end of the span, so shorter than declared when the span is short. It
  is the loop of \<open>IPSPatch.from_bytes\<close> that fails, with \<open>Invalid patch format.\<close>,
  when the span at its cursor is not empty, does not start with the end marker and is
  shorter than it declares.\<close>

theorem record_decode_never_fails:
  "(\<exists>r. IPSPatchRecord_from_bytes bs = Inr r
       \<and> offset r = int_from_bytes (pyslice bs 0 3)
       \<and> (0 < int_from_bytes (pyslice bs 3 5) \<longrightarrow>
            rle_size r = 0 \<and> data r = pyslice bs 5 (5 + int_from_bytes (pyslice bs 3 5))
            \<and> length (data r) = min (int_from_bytes (pyslice bs 3 5)) (length bs - 5))
       \<and> (int_from_bytes (pyslice bs 3 5) = 0 \<longrightarrow>
            rle_size r = int_from_bytes (pyslice bs 5 7) \<and> data r = pyslice bs 7 8
            \<and> length (data r) = min 1 (length bs - 7)))
   \<and> (drop i buf \<noteq> [] \<and> pyslice buf i (i + length EOF) \<noteq> EOF
        \<and> length (drop i buf) < declared_length (drop i buf) \<longrightarrow>
        from_bytes_loop buf i recs = Some (Inl (ValueError ''Invalid patch format.'')))"
  using truncated_record_fails [of i buf recs]
  by (simp add: from_bytes_eq length_pyslice)

theorem record_decode_never_fails_witness:
  "(\<exists>r. IPSPatchRecord_from_bytes [0, 0, 1, 0, 5, 1] = Inr r \<and> offset r = 1
       \<and> rle_size r = 0 \<and> data r = [1] \<and> length (data r) = min 5 1)
   \<and> from_bytes_loop ([0x50, 0x41, 0x54, 0x43, 0x48] @ [0, 0, 1, 0, 5, 1]) 5 []
       = Some (Inl (ValueError ''Invalid patch format.''))"
  using record_decode_never_fails
          [of "[0, 0, 1, 0, 5, 1]" 5 "[0x50, 0x41, 0x54, 0x43, 0x48] @ [0, 0, 1, 0, 5, 1]" "[]"]
  by (simp add: pyslice_def int_from_bytes_def declared_length_def EOF_def)

text \<open>C7, as the claim states it, fails: the constructor builds an RLE record with two
  bytes of data.\<close>

theorem rle_record_with_two_bytes_counterexample:
  "IPSPatchRecord_init 0 [1, 2] 1 = Inr \<lparr>offset = 0, data = [1, 2], rle_size = 1\<rparr>
   \<and> is_rle \<lparr>offset = 0, data = [1, 2], rle_size = 1\<rparr>
   \<and> length (data \<lparr>offset = 0, data = [1, 2], rle_size = 1\<rparr>) = 2"
  by (simp add: init_Inr_iff is_rle_def)

text \<open>C7, amended. An RLE record that \<open>IPSPatchRecord.from_bytes\<close> decodes holds at most
  one byte of data, byte 7 of the span: exactly one, the fill value, when the span has
  at least 8 bytes.\<close>

theorem decoded_rle_record_holds_fill_byte:
  assumes "IPSPatchRecord_from_bytes bs = Inr r" and "is_rle r"
  shows "data r = pyslice bs 7 8 \<and> length (data r) \<le> 1
         \<and> (8 \<le> length bs \<longrightarrow> data r = [bs ! 7])"
proof -
  have z: "\<not> 0 < int_from_bytes (pyslice bs 3 5)"
    using assms by (auto simp: from_bytes_eq is_rle_def split: if_splits)
  then have d: "data r = pyslice bs 7 8"
    using assms(1) by (auto simp: from_bytes_eq)
  have "8 \<le> length bs \<Longrightarrow> pyslice bs 7 8 = [bs ! 7]"
    by (simp add: pyslice_def take_Suc_conv_app_nth hd_drop_conv_nth take_Suc)
  then show ?thesis using d by (simp add: length_pyslice)
qed

theorem decoded_rle_record_holds_fill_byte_witness:
  "IPSPatchRecord_from_bytes [0, 0, 1, 0, 0, 0, 3, 0x41] = Inr \<lparr>offset = 1, data = [0x41], rle_size = 3\<rparr>
   \<and> is_rle \<lparr>offset = 1, data = [0x41], rle_size = 3\<rparr>
   \<and> data \<lparr>offset = 1, data = [0x41], rle_size = 3\<rparr> = [[0, 0, 1, 0, 0, 0, 3, 0x41] ! 7]"
proof -
  have a: "IPSPatchRecord_from_bytes [0, 0, 1, 0, 0, 0, 3, 0x41]
             = Inr \<lparr>offset = 1, data = [0x41], rle_size = 3\<rparr>"
    by (simp add: from_bytes_eq pyslice_def int_from_bytes_def)
  have b: "is_rle \<lparr>offset = 1, data = [0x41], rle_size = 3\<rparr>"
    by (simp add: is_rle_def)
  show ?thesis
    using decoded_rle_record_holds_fill_byte [OF a b] a b by simp
qed

section \<open>Applying one record\<close>

text \<open>The bytes that \<open>IPSPatchRecord.apply\<close> writes: the right-hand side of its slice
  assignment.\<close>

definition payload :: "IPSPatchRecord \<Rightarrow> bytes" where
  "payload r = (if is_rle r then bytes_mul (pyslice (data r) 0 1) (rle_size r) else data r)"

lemma apply_eq:
  "IPSPatchRecord_apply r buf =
     take (offset r) buf @ payload r @ drop (offset r + applied_size r) buf"
  by (simp add: IPSPatchRecord_apply_def payload_def pyslice_assign_def applied_size_def
        size_field_def Let_def)

lemma bytes_mul_single: "bytes_mul [x] n = replicate n x"
  by (induction n) (simp_all add: bytes_mul_0 bytes_mul_Suc)

lemma pyslice_first: "xs \<noteq> [] \<Longrightarrow> pyslice xs 0 (Suc 0) = [hd xs]"
  by (cases xs) (simp_all add: pyslice_def)

lemma length_payload:
  "is_rle r \<longrightarrow> data r \<noteq> [] \<Longrightarrow> length (payload r) = applied_size r"
  by (auto simp: payload_def applied_size_def size_field_def pyslice_first bytes_mul_single)

text \<open>C6, as the claim states it, fails: a record at offset 2 applied to an empty buffer
  gives a buffer of length 1, not at least 3. The slice assignment clips the offset to
  the length of the buffer.\<close>

theorem apply_past_buffer_end_counterexample:
  "IPSPatchRecord_apply \<lparr>offset = 2, data = [1], rle_size = 0\<rparr> [] = [1]
   \<and> applied_size \<lparr>offset = 2, data = [1], rle_size = 0\<rparr> = 1
   \<and> length (IPSPatchRecord_apply \<lparr>offset = 2, data = [1], rle_size = 0\<rparr> []) < 2 + 1"
  by (simp add: apply_eq payload_def applied_size_def size_field_def is_rle_def)

text \<open>C6, amended. When the offset of the record is at most the length of the buffer (and
  an RLE record holds a fill byte), applying it gives a buffer of length
  \<open>max (length buf) (offset + applied_size)\<close>, the record's bytes are at the positions
  offset .. offset + applied_size - 1, and the bytes before and after them are those of
  the buffer. When the offset is past the end of the buffer, the record's bytes are put
  at the end of the buffer, with no bytes for the gap.\<close>

theorem apply_grows_buffer_from_inside:
  "(offset r \<le> length buf \<and> (is_rle r \<longrightarrow> data r \<noteq> []) \<longrightarrow>
      length (IPSPatchRecord_apply r buf) = max (length buf) (offset r + applied_size r)
      \<and> pyslice (IPSPatchRecord_apply r buf) (offset r) (offset r + applied_size r)
          = (if is_rle r then replicate (rle_size r) (hd (data r)) else data r)
      \<and> take (offset r) (IPSPatchRecord_apply r buf) = take (offset r) buf
      \<and> drop (offset r + applied_size r) (IPSPatchRecord_apply r buf)
          = drop (offset r + applied_size r) buf)
   \<and> (length buf < offset r \<and> (is_rle r \<longrightarrow> data r \<noteq> []) \<longrightarrow>
      IPSPatchRecord_apply r buf
          = buf @ (if is_rle r then replicate (rle_size r) (hd (data r)) else data r))"
proof (intro conjI impI)
  assume a: "offset r \<le> length buf \<and> (is_rle r \<longrightarrow> data r \<noteq> [])"
  then have l: "length (payload r) = applied_size r" by (simp add: length_payload)
  have p: "payload r = (if is_rle r then replicate (rle_size r) (hd (data r)) else data r)"
    using a by (auto simp: payload_def pyslice_first bytes_mul_single)
  show "length (IPSPatchRecord_apply r buf) = max (length buf) (offset r + applied_size r)"
    using a l by (auto simp: apply_eq)
  show "pyslice (IPSPatchRecord_apply r buf) (offset r) (offset r + applied_size r)
          = (if is_rle r then replicate (rle_size r) (hd (data r)) else data r)"
    using a l unfolding p[symmetric] by (simp add: apply_eq pyslice_def)
  show "take (offset r) (IPSPatchRecord_apply r buf) = take (offset r) buf"
    using a by (simp add: apply_eq)
  show "drop (offset r + applied_size r) (IPSPatchRecord_apply r buf)
          = drop (offset r + applied_size r) buf"
    using a l by (simp add: apply_eq)
next
  assume a: "length buf < offset r \<and> (is_rle r \<longrightarrow> data r \<noteq> [])"
  have p: "payload r = (if is_rle r then replicate (rle_size r) (hd (data r)) else data r)"
    using a by (auto simp: payload_def pyslice_first bytes_mul_single)
  show "IPSPatchRecord_apply r buf
          = buf @ (if is_rle r then replicate (rle_size r) (hd (data r)) else data r)"
    using a unfolding p[symmetric] by (simp add: apply_eq)
qed

theorem apply_grows_buffer_from_inside_witness:
  "length (IPSPatchRecord_apply \<lparr>offset = 1, data = [7, 8, 9], rle_size = 0\<rparr> [1, 2]) = 4
   \<and> pyslice (IPSPatchRecord_apply \<lparr>offset = 1, data = [7, 8, 9], rle_size = 0\<rparr> [1, 2]) 1 4
       = [7, 8, 9]
   \<and> IPSPatchRecord_apply \<lparr>offset = 3, data = [5], rle_size = 2\<rparr> [1, 2] = [1, 2, 5, 5]"
proof -
  have "length (IPSPatchRecord_apply \<lparr>offset = 1, data = [7, 8, 9], rle_size = 0\<rparr> [1, 2]) = 4
      \<and> pyslice (IPSPatchRecord_apply \<lparr>offset = 1, data = [7, 8, 9], rle_size = 0\<rparr> [1, 2]) 1 4
           = [7, 8, 9]"
    using apply_grows_buffer_from_inside
            [of "\<lparr>offset = 1, data = [7, 8, 9], rle_size = 0\<rparr>" "[1, 2]"]
    by (simp add: is_rle_def applied_size_def size_field_def eval_nat_numeral)
  moreover have "replicate 2 (5 :: byte) = [5, 5]"
    by (simp add: numeral_2_eq_2)
  then have "IPSPatchRecord_apply \<lparr>offset = 3, data = [5], rle_size = 2\<rparr> [1, 2] = [1, 2, 5, 5]"
    using apply_grows_buffer_from_inside
            [of "\<lparr>offset = 3, data = [5], rle_size = 2\<rparr>" "[1, 2]"]
    by (simp add: is_rle_def applied_size_def size_field_def)
  ultimately show ?thesis by blast
qed

section \<open>Encoding and decoding\<close>

text \<open>A record that the constructor returns on its own fields: one that can be built.\<close>

definition constructible :: "IPSPatchRecord \<Rightarrow> bool" where
  "constructible r =
     (IPSPatchRecord_init (int (offset r)) (data r) (int (rle_size r)) = Inr r)"

text \<open>The valid records of the data model, in the words of the specification: a record
  that can be built and is either a literal record with data that is not empty, or an RLE
  record with one byte of data, the fill value.\<close>

definition well_formed :: "IPSPatchRecord \<Rightarrow> bool" where
  "well_formed r =
     (constructible r \<and> (if is_rle r then length (data r) = 1 else 0 < length (data r)))"

text \<open>The bytes that \<open>IPSPatchRecord.to_bytes\<close> writes for a record that can be built
  (lemma \<open>to_bytes_constructible\<close>).\<close>

definition encoding :: "IPSPatchRecord \<Rightarrow> bytes" where
  "encoding r =
     big_endian 3 (offset r)
     @ (if is_rle r
        then [0, 0] @ big_endian 2 (rle_size r) @ bytes_mul (pyslice (data r) 0 1) (rle_size r)
        else big_endian 2 (length (data r)) @ data r)"

lemma constructible_iff:
  "constructible r \<longleftrightarrow>
     offset r \<le> 16777215 \<and> length (data r) \<le> 65535 \<and> rle_size r \<le> 65535"
  by (cases r) (auto simp: constructible_def init_Inr_iff)

lemma to_bytes_constructible:
  assumes "constructible r"
  shows "IPSPatchRecord_to_bytes r = Inr (encoding r)"
  using assms
  by (simp add: constructible_iff IPSPatchRecord_to_bytes_def int_to_bytes_def encoding_def
        OFFSET_SIZE_def SIZE_SIZE_def RLE_SIZE_SIZE_def bytes_mul_2)

lemma int_from_bytes_big_endian: "int_from_bytes (big_endian n v) = v mod 256 ^ n"
proof (induction n arbitrary: v)
  case 0
  show ?case by (simp add: int_from_bytes_def)
next
  case (Suc n)
  have "unat (of_nat v :: byte) = v mod 256"
    by (simp add: unat_of_nat)
  then have "int_from_bytes (big_endian (Suc n) v) = (v div 256 mod 256 ^ n) * 256 + v mod 256"
    using Suc by (simp add: int_from_bytes_snoc)
  also have "\<dots> = v mod (256 * 256 ^ n)"
    by (simp add: mod_mult2_eq)
  finally show ?case by simp
qed

lemma length_big_endian: "length (big_endian n v) = n"
  by (induction n arbitrary: v) simp_all

lemma int_from_big_endian_3: "v \<le> 16777215 \<Longrightarrow> int_from_bytes (big_endian 3 v) = v"
  by (simp add: int_from_bytes_big_endian)

lemma int_from_big_endian_2: "v \<le> 65535 \<Longrightarrow> int_from_bytes (big_endian 2 v) = v"
  by (simp add: int_from_bytes_big_endian)

lemma decode_encoding:
  assumes "well_formed r"
  shows "IPSPatchRecord_from_bytes (encoding r @ rest) = Inr r"
proof (cases "is_rle r")
  case False
  have c: "offset r \<le> 16777215" "length (data r) \<le> 65535" "0 < length (data r)"
    using assms False by (simp_all add: well_formed_def constructible_iff)
  have z: "rle_size r = 0" using False by (simp add: is_rle_def)
  let ?bs = "encoding r @ rest"
  have e: "?bs = big_endian 3 (offset r) @ big_endian 2 (length (data r)) @ data r @ rest"
    using False by (simp add: encoding_def)
  have 1: "pyslice ?bs 0 3 = big_endian 3 (offset r)"
    unfolding e by (simp add: pyslice_def length_big_endian)
  have 2: "pyslice ?bs 3 5 = big_endian 2 (length (data r))"
    unfolding e by (simp add: pyslice_def length_big_endian)
  have 3: "pyslice ?bs 5 (5 + length (data r)) = data r"
    unfolding e by (simp add: pyslice_def length_big_endian)
  show ?thesis
    using c z unfolding from_bytes_eq 1 2
    by (simp add: int_from_big_endian_3 int_from_big_endian_2 3)
next
  case True
  have c: "offset r \<le> 16777215" "rle_size r \<le> 65535" "length (data r) = 1"
    using assms True by (simp_all add: well_formed_def constructible_iff)
  have p: "0 < rle_size r" using True by (simp add: is_rle_def)
  obtain f where f: "data r = [f]"
    using c(3) by (cases "data r") simp_all
  obtain n where n: "rle_size r = Suc n"
    using p by (cases "rle_size r") simp_all
  let ?bs = "encoding r @ rest"
  have e: "?bs = big_endian 3 (offset r) @ [0, 0] @ big_endian 2 (rle_size r)
                 @ f # (bytes_mul [f] n @ rest)"
    using True by (simp add: encoding_def f n pyslice_def bytes_mul_Suc)
  have 1: "pyslice ?bs 0 3 = big_endian 3 (offset r)"
    unfolding e by (simp add: pyslice_def length_big_endian)
  have 2: "pyslice ?bs 3 5 = [0, 0]"
    unfolding e by (simp add: pyslice_def length_big_endian)
  have 3: "pyslice ?bs 5 7 = big_endian 2 (rle_size r)"
    unfolding e by (simp add: pyslice_def length_big_endian)
  have 4: "pyslice ?bs 7 8 = [f]"
    unfolding e by (simp add: pyslice_def length_big_endian)
  have 5: "int_from_bytes [0, 0] = 0"
    by (simp add: int_from_bytes_def)
  show ?thesis
    using c unfolding from_bytes_eq 1 2 3 4 5
    by (simp add: int_from_big_endian_3 int_from_big_endian_2 f)
qed

text \<open>C3. For every valid record (a literal record with 1 to 65535 bytes of data, or an RLE
  record with a one-byte fill value), \<open>to_bytes\<close> succeeds and \<open>from_bytes\<close> of its
  result is the record itself: offset, data and RLE size, and so the RLE flag, are equal.\<close>

theorem record_round_trip:
  assumes "well_formed r"
  shows "\<exists>enc. IPSPatchRecord_to_bytes r = Inr enc \<and> IPSPatchRecord_from_bytes enc = Inr r"
proof -
  have "IPSPatchRecord_to_bytes r = Inr (encoding r)"
    using assms by (simp add: well_formed_def to_bytes_constructible)
  moreover have "IPSPatchRecord_from_bytes (encoding r) = Inr r"
    using decode_encoding [OF assms, of "[]"] by simp
  ultimately show ?thesis by blast
qed

subsection \<open>The decoding loop ends\<close>

lemma record_len_ge_5: "5 \<le> IPSPatchRecord_len r"
  by (simp add: IPSPatchRecord_len_def OFFSET_SIZE_def SIZE_SIZE_def RLE_SIZE_SIZE_def)

lemma from_bytes_Inr: "\<exists>r. IPSPatchRecord_from_bytes bs = Inr r"
  by (simp add: from_bytes_eq)

lemma from_bytes_loop_returns: "\<exists>res. from_bytes_loop buf i recs = Some res"
proof (induction "length buf - i" arbitrary: i recs rule: less_induct)
  case less
  show ?case
  proof (cases "pyslice buf i (i + length EOF) = EOF")
    case True
    then show ?thesis by (subst from_bytes_loop.simps) simp
  next
    case notEOF: False
    show ?thesis
    proof (cases "drop i buf = []")
      case True
      then show ?thesis using notEOF by (subst from_bytes_loop.simps) simp
    next
      case False
      then have i: "i < length buf" by simp
      obtain r where r: "IPSPatchRecord_from_bytes (drop i buf) = Inr r"
        using from_bytes_Inr by blast
      have "length buf - (i + IPSPatchRecord_len r) < length buf - i"
        using i record_len_ge_5 [of r] by linarith
      then obtain res where
        "from_bytes_loop buf (i + IPSPatchRecord_len r) (recs @ [r]) = Some res"
        using less by blast
      then show ?thesis
        using notEOF False r by (subst from_bytes_loop.simps) simp
    qed
  qed
qed

text \<open>C10. \<open>len\<close> of a record is at least 5, so the cursor of \<open>IPSPatch.from_bytes\<close> moves
  forward in every round of its loop, and on every buffer the loop, from any cursor,
  and the whole decoder return: a patch or an error.\<close>

theorem decode_terminates:
  "5 \<le> IPSPatchRecord_len r \<and> i < i + IPSPatchRecord_len r
   \<and> (\<exists>res. from_bytes_loop buf i recs = Some res)
   \<and> (\<exists>res. IPSPatch_from_bytes buf = Some res)"
proof -
  obtain res where "from_bytes_loop buf (0 + length PATCH) [] = Some res"
    using from_bytes_loop_returns by blast
  then have "\<exists>res. IPSPatch_from_bytes buf = Some res"
    by (cases res) (simp_all add: IPSPatch_from_bytes_def)
  then show ?thesis
    using record_len_ge_5 [of r] from_bytes_loop_returns [of buf i recs] by simp
qed

subsection \<open>Decoding an encoded patch\<close>

text \<open>The records for which the round trip of a whole patch is proved: valid, at an offset
  whose three bytes are not \<open>EOF\<close>, and, for an RLE record, with an RLE size of 1, for
  which \<open>to_bytes\<close> writes the 8 bytes that \<open>len\<close> counts.\<close>

definition round_trips :: "IPSPatchRecord \<Rightarrow> bool" where
  "round_trips r =
     (well_formed r \<and> offset r \<noteq> 0x454F46 \<and> (if is_rle r then rle_size r = 1 else True))"

lemma to_bytes_loop_encoding:
  assumes "\<forall>r\<in>set rs. constructible r"
  shows "to_bytes_loop rs acc = Inr (acc @ concat (map encoding rs))"
  using assms
  by (induction rs arbitrary: acc) (simp_all add: to_bytes_constructible)

lemma length_encoding:
  assumes "round_trips r"
  shows "length (encoding r) = IPSPatchRecord_len r"
proof (cases "is_rle r")
  case True
  then have "rle_size r = 1" "length (data r) = 1"
    using assms by (simp_all add: round_trips_def well_formed_def)
  then show ?thesis
    using True
    by (cases "data r")
       (simp_all add: encoding_def IPSPatchRecord_len_def length_big_endian bytes_mul_def
          pyslice_def OFFSET_SIZE_def SIZE_SIZE_def RLE_SIZE_SIZE_def)
next
  case False
  then show ?thesis
    by (simp add: encoding_def IPSPatchRecord_len_def length_big_endian
          OFFSET_SIZE_def SIZE_SIZE_def)
qed

lemma int_from_bytes_EOF: "int_from_bytes EOF = 0x454F46"
  by (simp add: int_from_bytes_def EOF_def)

lemma encoding_not_EOF:
  assumes "round_trips r"
  shows "take 3 (encoding r @ rest) \<noteq> EOF"
proof
  assume a: "take 3 (encoding r @ rest) = EOF"
  have "take 3 (encoding r @ rest) = big_endian 3 (offset r)"
    by (simp add: encoding_def length_big_endian)
  then have "int_from_bytes (big_endian 3 (offset r)) = 0x454F46"
    using a int_from_bytes_EOF by simp
  moreover have "offset r \<le> 16777215"
    using assms by (simp add: round_trips_def well_formed_def constructible_iff)
  ultimately show False
    using assms by (simp add: int_from_big_endian_3 round_trips_def)
qed

lemma encoding_not_Nil: "encoding r \<noteq> []"
  by (simp add: encoding_def big_endian_3)

lemma from_bytes_loop_encoding:
  assumes "\<forall>r\<in>set rs. round_trips r"
  shows "from_bytes_loop (pre @ concat (map encoding rs) @ EOF) (length pre) acc
           = Some (Inr (acc @ rs))"
  using assms
proof (induction rs arbitrary: pre acc)
  case Nil
  have "pyslice (pre @ EOF) (length pre) (length pre + length EOF) = EOF"
    by (simp add: pyslice_def)
  then show ?case by (subst from_bytes_loop.simps) simp
next
  case (Cons r rs)
  define rest where "rest = concat (map encoding rs) @ EOF"
  define buf where "buf = pre @ encoding r @ rest"
  have rt: "round_trips r" using Cons.prems by simp
  have 1: "pyslice buf (length pre) (length pre + length EOF) \<noteq> EOF"
    using encoding_not_EOF [OF rt, of rest] by (simp add: buf_def pyslice_def EOF_def)
  have 2: "drop (length pre) buf = encoding r @ rest"
    by (simp add: buf_def)
  have 3: "IPSPatchRecord_from_bytes (encoding r @ rest) = Inr r"
    using rt by (simp add: decode_encoding round_trips_def)
  have 4: "encoding r @ rest \<noteq> []"
    using encoding_not_Nil by simp
  have "from_bytes_loop ((pre @ encoding r) @ rest) (length (pre @ encoding r)) (acc @ [r])
          = Some (Inr ((acc @ [r]) @ rs))"
    using Cons.IH [of "pre @ encoding r" "acc @ [r]"] Cons.prems by (simp add: rest_def)
  then have 5: "from_bytes_loop buf (length pre + IPSPatchRecord_len r) (acc @ [r])
          = Some (Inr (acc @ r # rs))"
    using length_encoding [OF rt] by (simp add: buf_def)
  have "from_bytes_loop buf (length pre) acc = Some (Inr (acc @ r # rs))"
    using 4 by (subst from_bytes_loop.simps) (simp add: 1 2 3 5 Let_def)
  then show ?case
    by (simp add: buf_def rest_def)
qed

lemma bytes_mul_1: "bytes_mul bs (Suc 0) = bs"
  by (simp add: bytes_mul_def)

lemma bytes_mul_3: "bytes_mul bs 3 = bs @ bs @ bs"
  by (simp add: bytes_mul_def numeral_3_eq_3)

theorem record_round_trip_witness:
  "IPSPatchRecord_from_bytes [0, 0, 1, 0, 2, 1, 1] = Inr \<lparr>offset = 1, data = [1, 1], rle_size = 0\<rparr>
   \<and> IPSPatchRecord_from_bytes [0, 0, 4, 0, 0, 0, 3, 7, 7, 7]
        = Inr \<lparr>offset = 4, data = [7], rle_size = 3\<rparr>"
proof -
  have w1: "well_formed \<lparr>offset = 1, data = [1, 1], rle_size = 0\<rparr>"
    by (simp add: well_formed_def constructible_iff is_rle_def)
  have w2: "well_formed \<lparr>offset = 4, data = [7], rle_size = 3\<rparr>"
    by (simp add: well_formed_def constructible_iff is_rle_def)
  have e1: "IPSPatchRecord_to_bytes \<lparr>offset = 1, data = [1, 1], rle_size = 0\<rparr>
              = Inr [0, 0, 1, 0, 2, 1, 1]"
    by (simp add: IPSPatchRecord_to_bytes_def int_to_bytes_def is_rle_def big_endian_2
          big_endian_3 ips_consts)
  have e2: "IPSPatchRecord_to_bytes \<lparr>offset = 4, data = [7], rle_size = 3\<rparr>
              = Inr [0, 0, 4, 0, 0, 0, 3, 7, 7, 7]"
    by (simp add: IPSPatchRecord_to_bytes_def int_to_bytes_def is_rle_def big_endian_2
          big_endian_3 bytes_mul_2 bytes_mul_3 pyslice_def OFFSET_SIZE_def
          SIZE_SIZE_def RLE_SIZE_SIZE_def)
  show ?thesis
    using record_round_trip [OF w1] record_round_trip [OF w2] e1 e2 by simp
qed

text \<open>C2, as the claim states it, fails: a valid literal record at offset \<open>0x454F46\<close> is
  written with the bytes \<open>EOF\<close> first, and the decoder, which looks for the end marker
  where a record starts, returns a patch with no records.\<close>

theorem offset_EOF_counterexample:
  "well_formed \<lparr>offset = 0x454F46, data = [1], rle_size = 0\<rparr>
   \<and> IPSPatch_to_bytes \<lparr>records = [\<lparr>offset = 0x454F46, data = [1], rle_size = 0\<rparr>]\<rparr>
       = Inr (PATCH @ [0x45, 0x4F, 0x46, 0, 1, 1] @ EOF)
   \<and> IPSPatch_from_bytes (PATCH @ [0x45, 0x4F, 0x46, 0, 1, 1] @ EOF)
       = Some (Inr \<lparr>records = []\<rparr>)"
  by (simp add: well_formed_def constructible_iff IPSPatch_to_bytes_def
      IPSPatchRecord_to_bytes_def int_to_bytes_def is_rle_def big_endian_2 big_endian_3
      IPSPatch_from_bytes_def from_bytes_loop.simps pyslice_def ips_consts)

text \<open>The claim also fails on an RLE record with an RLE size of 2: \<open>to_bytes\<close> writes the
  fill byte twice, \<open>len\<close> is 8, and the decoder reads the second fill byte as the start
  of a record and fails.\<close>

lemma rle_run_is_written_in_full:
  "well_formed \<lparr>offset = 0, data = [0x41], rle_size = 2\<rparr>
   \<and> IPSPatch_to_bytes \<lparr>records = [\<lparr>offset = 0, data = [0x41], rle_size = 2\<rparr>]\<rparr>
       = Inr (PATCH @ [0, 0, 0, 0, 0, 0, 2, 0x41, 0x41] @ EOF)
   \<and> IPSPatchRecord_len \<lparr>offset = 0, data = [0x41], rle_size = 2\<rparr> = 8
   \<and> IPSPatch_from_bytes (PATCH @ [0, 0, 0, 0, 0, 0, 2, 0x41, 0x41] @ EOF)
       = Some (Inl (ValueError ''Invalid patch format.''))"
  by (simp add: well_formed_def constructible_iff IPSPatch_to_bytes_def
      IPSPatchRecord_to_bytes_def int_to_bytes_def is_rle_def IPSPatchRecord_len_def
      from_bytes_eq int_from_bytes_def big_endian_2 big_endian_3 bytes_mul_2
      IPSPatch_from_bytes_def from_bytes_loop.simps pyslice_def ips_consts)

text \<open>C2, amended. For every patch whose records are valid, not at offset \<open>0x454F46\<close>,
  and literal or RLE with an RLE size of 1, \<open>to_bytes\<close> succeeds, \<open>from_bytes\<close> of its
  result returns the patch itself, and \<open>len\<close> of each record, by which the cursor moves,
  is the length of the record's encoding.\<close>

theorem patch_round_trip:
  assumes "\<forall>r\<in>set (records P). round_trips r"
  shows "\<exists>enc. IPSPatch_to_bytes P = Inr enc \<and> IPSPatch_from_bytes enc = Some (Inr P)
           \<and> (\<forall>r\<in>set (records P). \<exists>rb. IPSPatchRecord_to_bytes r = Inr rb
                  \<and> IPSPatchRecord_len r = length rb)"
proof -
  let ?enc = "PATCH @ concat (map encoding (records P)) @ EOF"
  have c: "\<forall>r\<in>set (records P). constructible r"
    using assms by (simp add: round_trips_def well_formed_def)
  have 1: "IPSPatch_to_bytes P = Inr ?enc"
    using to_bytes_loop_encoding [OF c, of PATCH] by (simp add: IPSPatch_to_bytes_def)
  have "from_bytes_loop ?enc (length PATCH) [] = Some (Inr ([] @ records P))"
    using assms by (rule from_bytes_loop_encoding)
  moreover have "pyslice ?enc 0 (length PATCH) = PATCH"
    by (simp add: pyslice_def)
  ultimately have 2: "IPSPatch_from_bytes ?enc = Some (Inr P)"
    by (simp add: IPSPatch_from_bytes_def)
  have 3: "\<forall>r\<in>set (records P). \<exists>rb. IPSPatchRecord_to_bytes r = Inr rb
                  \<and> IPSPatchRecord_len r = length rb"
    using assms c by (simp add: to_bytes_constructible length_encoding)
  show ?thesis using 1 2 3 by blast
qed

theorem patch_round_trip_witness:
  "IPSPatch_from_bytes (PATCH @ [0, 0, 1, 0, 2, 1, 1, 0, 0, 4, 0, 0, 0, 1, 7] @ EOF)
     = Some (Inr \<lparr>records = [\<lparr>offset = 1, data = [1, 1], rle_size = 0\<rparr>,
                             \<lparr>offset = 4, data = [7], rle_size = 1\<rparr>]\<rparr>)"
proof -
  let ?P = "\<lparr>records = [\<lparr>offset = 1, data = [1, 1], rle_size = 0\<rparr>,
                          \<lparr>offset = 4, data = [7], rle_size = 1\<rparr>]\<rparr>"
  have w: "\<forall>r\<in>set (records ?P). round_trips r"
    by (simp add: round_trips_def well_formed_def constructible_iff is_rle_def)
  have e: "IPSPatch_to_bytes ?P
             = Inr (PATCH @ [0, 0, 1, 0, 2, 1, 1, 0, 0, 4, 0, 0, 0, 1, 7] @ EOF)"
    by (simp add: IPSPatch_to_bytes_def IPSPatchRecord_to_bytes_def int_to_bytes_def is_rle_def
          big_endian_2 big_endian_3 bytes_mul_1 bytes_mul_2 pyslice_def OFFSET_SIZE_def
          SIZE_SIZE_def RLE_SIZE_SIZE_def PATCH_def)
  show ?thesis
    using patch_round_trip [OF w] e by simp
qed

theorem decode_terminates_witness:
  "5 \<le> IPSPatchRecord_len \<lparr>offset = 1, data = [], rle_size = 0\<rparr>
   \<and> (\<exists>res. IPSPatch_from_bytes [0x50, 0x41, 0x54, 0x43, 0x48, 0, 0] = Some res)"
  using decode_terminates [of "\<lparr>offset = 1, data = [], rle_size = 0\<rparr>" 0
                              "[0x50, 0x41, 0x54, 0x43, 0x48, 0, 0]" "[]"]
  by blast

section \<open>The diff and its patch\<close>

text \<open>The values of one round of the two loops of \<open>from_diff\<close>: where the run of
  differing bytes that starts at \<open>i\<close> ends, where the next one starts, where a chunk of
  the tail ends, and the record that is appended.\<close>

definition scan_end :: "bytes \<Rightarrow> bytes \<Rightarrow> nat \<Rightarrow> nat" where
  "scan_end src dest i = find_first src dest i (min (length src) (i + SIZE_MAX)) (=)"

definition scan_next :: "bytes \<Rightarrow> bytes \<Rightarrow> nat \<Rightarrow> nat" where
  "scan_next src dest i = find_first src dest (scan_end src dest i) (length src) (\<noteq>)"

definition chunk_end :: "bytes \<Rightarrow> nat \<Rightarrow> nat" where
  "chunk_end dest i = min (length dest) (i + SIZE_MAX)"

definition literal :: "bytes \<Rightarrow> nat \<Rightarrow> nat \<Rightarrow> IPSPatchRecord" where
  "literal dest a b = \<lparr>offset = a, data = pyslice dest a b, rle_size = 0\<rparr>"

lemma scan_end_bounds:
  assumes "i < length src"
  shows "i \<le> scan_end src dest i" "scan_end src dest i \<le> length src"
    "scan_end src dest i \<le> i + SIZE_MAX"
proof -
  have "i \<le> min (length src) (i + SIZE_MAX)" using assms by simp
  then show "i \<le> scan_end src dest i" "scan_end src dest i \<le> length src"
    "scan_end src dest i \<le> i + SIZE_MAX"
    using find_first_ge [of i "min (length src) (i + SIZE_MAX)" src dest "(=)"]
      find_first_le [of i "min (length src) (i + SIZE_MAX)" src dest "(=)"]
    by (simp_all add: scan_end_def)
qed

lemma scan_next_bounds:
  assumes "i < length src"
  shows "scan_end src dest i \<le> scan_next src dest i" "scan_next src dest i \<le> length src"
    "i < scan_next src dest i"
proof -
  have e: "scan_end src dest i \<le> length src" using assms by (rule scan_end_bounds)
  show "scan_end src dest i \<le> scan_next src dest i"
    using find_first_ge [OF e] by (simp add: scan_next_def)
  show "scan_next src dest i \<le> length src"
    using find_first_le [OF e] by (simp add: scan_next_def)
  show "i < scan_next src dest i"
    using diff_step_advances [OF assms] by (simp add: scan_next_def scan_end_def)
qed

lemma scan_next_equal:
  assumes "i < length src" "scan_end src dest i \<le> j" "j < scan_next src dest i"
    "j < length dest"
  shows "src ! j = dest ! j"
proof -
  have e: "scan_end src dest i \<le> length src" using assms(1) by (rule scan_end_bounds)
  have "j < length src" using assms(3) scan_next_bounds(2) [OF assms(1), of dest] by linarith
  then have "\<not> src ! j \<noteq> dest ! j"
    using find_first_before [of "scan_end src dest i" j src dest "length src" "(\<noteq>)"] assms e
    by (simp add: scan_next_def)
  then show ?thesis by simp
qed

lemma chunk_end_bounds:
  assumes "i < length dest"
  shows "i < chunk_end dest i" "chunk_end dest i \<le> length dest"
    "chunk_end dest i \<le> i + SIZE_MAX"
  using assms by (simp_all add: chunk_end_def SIZE_MAX_val)

subsection \<open>Invariants of the two loops\<close>

text \<open>One round of the first loop, when the record is built.\<close>

lemma diff_loop1_step:
  assumes "i < length src"
    and "diff_loop1 src dest i i recs = Inr res"
  shows "diff_loop1 src dest (scan_next src dest i) (scan_next src dest i)
           (recs @ [literal dest i (scan_end src dest i)]) = Inr res"
  using assms unfolding scan_next_def scan_end_def literal_def
  by (subst (asm) diff_loop1.simps)
     (auto simp: Let_def init_Inr_iff split: sum.splits)

lemma diff_loop1_stop:
  assumes "\<not> i < length src"
  shows "diff_loop1 src dest i ds recs = Inr (i, ds, recs)"
  using assms by (subst diff_loop1.simps) simp

lemma diff_loop2_step:
  assumes "i < length dest"
    and "diff_loop2 dest i i recs = Inr res"
  shows "diff_loop2 dest (chunk_end dest i) (chunk_end dest i)
           (recs @ [literal dest i (chunk_end dest i)]) = Inr res"
  using assms unfolding chunk_end_def literal_def
  by (subst (asm) diff_loop2.simps)
     (auto simp: Let_def init_Inr_iff split: sum.splits)

lemma diff_loop2_stop:
  assumes "\<not> i < length dest"
  shows "diff_loop2 dest i ds recs = Inr recs"
  using assms by (subst diff_loop2.simps) simp

lemma diff_loop1_invariant:
  assumes "diff_loop1 src dest i i recs = Inr (i', ds', recs')"
    and "I i recs"
    and step: "\<And>i recs. i < length src \<Longrightarrow> I i recs \<Longrightarrow>
                 I (scan_next src dest i) (recs @ [literal dest i (scan_end src dest i)])"
  shows "I i' recs' \<and> ds' = i' \<and> \<not> i' < length src"
  using assms(1,2)
proof (induction "length src - i" arbitrary: i recs rule: less_induct)
  case less
  show ?case
  proof (cases "i < length src")
    case False
    then show ?thesis
      using less.prems by (simp add: diff_loop1_stop)
  next
    case True
    have "length src - scan_next src dest i < length src - i"
      using True scan_next_bounds(3) [OF True, of dest] by linarith
    moreover have "diff_loop1 src dest (scan_next src dest i) (scan_next src dest i)
           (recs @ [literal dest i (scan_end src dest i)]) = Inr (i', ds', recs')"
      using diff_loop1_step [OF True less.prems(1)] .
    moreover have "I (scan_next src dest i) (recs @ [literal dest i (scan_end src dest i)])"
      using step [OF True less.prems(2)] .
    ultimately show ?thesis
      using less.hyps by blast
  qed
qed

lemma diff_loop2_invariant:
  assumes "diff_loop2 dest i i recs = Inr recs'"
    and "I i recs"
    and step: "\<And>i recs. i < length dest \<Longrightarrow> I i recs \<Longrightarrow>
                 I (chunk_end dest i) (recs @ [literal dest i (chunk_end dest i)])"
  shows "\<exists>i'. I i' recs' \<and> \<not> i' < length dest"
  using assms(1,2)
proof (induction "length dest - i" arbitrary: i recs rule: less_induct)
  case less
  show ?case
  proof (cases "i < length dest")
    case False
    then show ?thesis
      using less.prems by (auto simp: diff_loop2_stop)
  next
    case True
    have "length dest - chunk_end dest i < length dest - i"
      using True chunk_end_bounds(1) [OF True] by linarith
    moreover have "diff_loop2 dest (chunk_end dest i) (chunk_end dest i)
           (recs @ [literal dest i (chunk_end dest i)]) = Inr recs'"
      using diff_loop2_step [OF True less.prems(1)] .
    moreover have "I (chunk_end dest i) (recs @ [literal dest i (chunk_end dest i)])"
      using step [OF True less.prems(2)] .
    ultimately show ?thesis
      using less.hyps by blast
  qed
qed

subsection \<open>The records are in order\<close>

lemma from_diff_Inr:
  assumes "IPSPatch_from_diff src dest = Inr p"
  obtains i' ds' recs1 where
    "diff_loop1 src dest (find_first src dest 0 (length src) (\<noteq>))
        (find_first src dest 0 (length src) (\<noteq>)) [] = Inr (i', ds', recs1)"
    "diff_loop2 dest i' ds' recs1 = Inr (records p)"
  using assms
  by (auto simp: IPSPatch_from_diff_def Let_def split: sum.splits prod.splits)

lemma applied_size_literal: "applied_size (literal dest a b) = min (b - a) (length dest - a)"
  by (simp add: applied_size_def size_field_def is_rle_def literal_def length_pyslice)

lemma offset_literal: "offset (literal dest a b) = a"
  by (simp add: literal_def)

text \<open>The records so far are in order and apart, and all end at or before \<open>i\<close>.\<close>

definition in_order :: "nat \<Rightarrow> IPSPatchRecord list \<Rightarrow> bool" where
  "in_order i recs =
     (sorted_wrt (\<lambda>a b. offset a < offset b \<and> offset a + applied_size a \<le> offset b) recs
      \<and> (\<forall>r\<in>set recs. offset r < i \<and> offset r + applied_size r \<le> i))"

lemma in_order_snoc:
  assumes "in_order i recs" "i < i'" "e \<le> i'"
  shows "in_order i' (recs @ [literal dest i e])"
proof -
  have "applied_size (literal dest i e) \<le> e - i"
    by (simp add: applied_size_literal)
  then have "i + applied_size (literal dest i e) \<le> i'"
    using assms(2,3) by linarith
  then show ?thesis
    using assms(1,2)
    by (fastforce simp add: in_order_def sorted_wrt_append offset_literal)
qed

text \<open>C9. In every patch that \<open>from_diff\<close> returns, any record comes before every later
  one: its offset is smaller, and its applied range \<open>offset .. offset + applied_size\<close>
  ends at or before the later record's offset. So the offsets increase strictly and no two
  applied ranges overlap.\<close>

theorem diff_records_in_order:
  assumes "IPSPatch_from_diff src dest = Inr p"
  shows "sorted_wrt (\<lambda>a b. offset a < offset b \<and> offset a + applied_size a \<le> offset b)
           (records p)"
proof -
  obtain i' ds' recs1 where
    l1: "diff_loop1 src dest (find_first src dest 0 (length src) (\<noteq>))
        (find_first src dest 0 (length src) (\<noteq>)) [] = Inr (i', ds', recs1)"
    and l2: "diff_loop2 dest i' ds' recs1 = Inr (records p)"
    using assms by (rule from_diff_Inr)
  have init: "in_order (find_first src dest 0 (length src) (\<noteq>)) []"
    by (simp add: in_order_def)
  have step1: "in_order (scan_next src dest i) (recs @ [literal dest i (scan_end src dest i)])"
    if "i < length src" "in_order i recs" for i recs
    using that scan_next_bounds [of i src dest] by (simp add: in_order_snoc)
  have step2: "in_order (chunk_end dest i) (recs @ [literal dest i (chunk_end dest i)])"
    if "i < length dest" "in_order i recs" for i recs
    using that chunk_end_bounds [of i dest] by (simp add: in_order_snoc)
  have "in_order i' recs1 \<and> ds' = i' \<and> \<not> i' < length src"
    using diff_loop1_invariant [where I = in_order, OF l1 init step1] by blast
  then have "in_order i' recs1" and "diff_loop2 dest i' i' recs1 = Inr (records p)"
    using l2 by simp_all
  then have "\<exists>j. in_order j (records p) \<and> \<not> j < length dest"
    using diff_loop2_invariant [where I = in_order, OF _ _ step2] by blast
  then show ?thesis by (auto simp: in_order_def)
qed

subsection \<open>Applying the diff\<close>

abbreviation apply_all :: "IPSPatchRecord list \<Rightarrow> bytes \<Rightarrow> bytes" where
  "apply_all recs buf \<equiv> foldl (\<lambda>d r. IPSPatchRecord_apply r d) buf recs"

lemma take_drop_agree:
  fixes s d :: "'a list"
  assumes "a \<le> b" "b \<le> length s" "b \<le> length d"
    and "\<And>j. a \<le> j \<Longrightarrow> j < b \<Longrightarrow> s ! j = d ! j"
  shows "take b d @ drop b s = take a d @ drop a s"
proof -
  have m: "take (b - a) (drop a d) = take (b - a) (drop a s)"
  proof (rule nth_equalityI)
    show "length (take (b - a) (drop a d)) = length (take (b - a) (drop a s))"
      using assms(1-3) by simp
  next
    fix k assume "k < length (take (b - a) (drop a d))"
    then have k: "k < b - a" by simp
    then have "s ! (a + k) = d ! (a + k)" using assms(4) [of "a + k"] by simp
    then show "take (b - a) (drop a d) ! k = take (b - a) (drop a s) ! k"
      using k assms(1-3) by simp
  qed
  have "take b d = take a d @ take (b - a) (drop a d)"
    using assms(1) take_add [of a "b - a" d] by simp
  moreover have "drop a s = take (b - a) (drop a s) @ drop b s"
    using assms(1) append_take_drop_id [of "b - a" "drop a s"] by simp
  ultimately show ?thesis using m by simp
qed

lemma payload_literal: "payload (literal dest a b) = pyslice dest a b"
  by (simp add: payload_def is_rle_def literal_def)

lemma apply_literal:
  assumes "a \<le> b" "b \<le> length dest" "length xs = a"
  shows "IPSPatchRecord_apply (literal dest a b) (xs @ ys) = xs @ pyslice dest a b @ drop (b - a) ys"
  using assms
  by (simp add: apply_eq payload_literal applied_size_literal offset_literal min_def)

text \<open>Applying the records so far to \<open>src\<close> gives \<open>dest\<close> up to \<open>i\<close> and \<open>src\<close> from
  there.\<close>

definition patched_up_to :: "bytes \<Rightarrow> bytes \<Rightarrow> nat \<Rightarrow> IPSPatchRecord list \<Rightarrow> bool" where
  "patched_up_to src dest i recs =
     (i \<le> length src \<and> apply_all recs src = take i dest @ drop i src)"

lemma patched_up_to_step:
  assumes le: "length src \<le> length dest" and i: "i < length src"
    and inv: "patched_up_to src dest i recs"
  shows "patched_up_to src dest (scan_next src dest i)
           (recs @ [literal dest i (scan_end src dest i)])"
proof -
  let ?e = "scan_end src dest i" and ?n = "scan_next src dest i"
  have b: "i \<le> ?e" "?e \<le> length src" "?e \<le> ?n" "?n \<le> length src"
    using scan_end_bounds [OF i, of dest] scan_next_bounds [OF i, of dest] by simp_all
  have "IPSPatchRecord_apply (literal dest i ?e) (take i dest @ drop i src)
          = take i dest @ pyslice dest i ?e @ drop (?e - i) (drop i src)"
    using b le i by (intro apply_literal) simp_all
  also have "\<dots> = take ?e dest @ drop ?e src"
    using b take_add [of i "?e - i" dest] by (simp add: pyslice_def)
  also have "\<dots> = take ?n dest @ drop ?n src"
  proof (rule take_drop_agree [symmetric])
    fix j assume "?e \<le> j" "j < ?n"
    then show "src ! j = dest ! j"
      using scan_next_equal [OF i, of dest j] b le by simp
  qed (use b le in simp_all)
  finally show ?thesis
    using inv b by (simp add: patched_up_to_def)
qed

lemma patched_chunk_step:
  assumes i: "i < length dest" and inv: "i \<le> length dest \<and> apply_all recs src = take i dest"
  shows "chunk_end dest i \<le> length dest
         \<and> apply_all (recs @ [literal dest i (chunk_end dest i)]) src = take (chunk_end dest i) dest"
proof -
  let ?e = "chunk_end dest i"
  have b: "i < ?e" "?e \<le> length dest"
    using chunk_end_bounds [OF i] by simp_all
  have "IPSPatchRecord_apply (literal dest i ?e) (take i dest @ [])
          = take i dest @ pyslice dest i ?e @ drop (?e - i) []"
    using b i by (intro apply_literal) simp_all
  also have "\<dots> = take ?e dest"
    using b take_add [of i "?e - i" dest] by (simp add: pyslice_def)
  finally show ?thesis
    using inv b by simp
qed

lemma diff_loop1_unfold:
  assumes "i < length src" "i \<le> 16777215"
  shows "diff_loop1 src dest i i recs
           = diff_loop1 src dest (scan_next src dest i) (scan_next src dest i)
               (recs @ [literal dest i (scan_end src dest i)])"
proof -
  have "length (pyslice dest i (scan_end src dest i)) \<le> 65535"
    using scan_end_bounds(3) [OF assms(1), of dest]
    by (simp add: length_pyslice SIZE_MAX_val)
  then have "IPSPatchRecord_init (int i) (pyslice dest i (scan_end src dest i)) 0
               = Inr (literal dest i (scan_end src dest i))"
    using assms(2) by (simp add: init_Inr_iff literal_def)
  then show ?thesis
    using assms(1)
    by (subst diff_loop1.simps) (simp add: Let_def scan_end_def scan_next_def)
qed

lemma diff_loop2_unfold:
  assumes "i < length dest" "i \<le> 16777215"
  shows "diff_loop2 dest i i recs
           = diff_loop2 dest (chunk_end dest i) (chunk_end dest i)
               (recs @ [literal dest i (chunk_end dest i)])"
proof -
  have "length (pyslice dest i (chunk_end dest i)) \<le> 65535"
    using chunk_end_bounds(3) [OF assms(1)]
    by (simp add: length_pyslice SIZE_MAX_val)
  then have "IPSPatchRecord_init (int i) (pyslice dest i (chunk_end dest i)) 0
               = Inr (literal dest i (chunk_end dest i))"
    using assms(2) by (simp add: init_Inr_iff literal_def)
  then show ?thesis
    using assms(1)
    by (subst diff_loop2.simps) (simp add: Let_def chunk_end_def)
qed

lemma diff_loop1_succeeds:
  assumes "length src \<le> 16777216"
  shows "\<exists>res. diff_loop1 src dest i i recs = Inr res"
proof (induction "length src - i" arbitrary: i recs rule: less_induct)
  case less
  show ?case
  proof (cases "i < length src")
    case False
    then show ?thesis by (simp add: diff_loop1_stop)
  next
    case True
    then have "i \<le> 16777215" using assms by linarith
    then have "diff_loop1 src dest i i recs
           = diff_loop1 src dest (scan_next src dest i) (scan_next src dest i)
               (recs @ [literal dest i (scan_end src dest i)])"
      using True by (rule diff_loop1_unfold [rotated])
    moreover have "length src - scan_next src dest i < length src - i"
      using True scan_next_bounds(3) [OF True, of dest] by linarith
    ultimately show ?thesis using less.hyps by simp
  qed
qed

lemma diff_loop2_succeeds:
  assumes "length dest \<le> 16777216"
  shows "\<exists>res. diff_loop2 dest i i recs = Inr res"
proof (induction "length dest - i" arbitrary: i recs rule: less_induct)
  case less
  show ?case
  proof (cases "i < length dest")
    case False
    then show ?thesis by (simp add: diff_loop2_stop)
  next
    case True
    then have "i \<le> 16777215" using assms by linarith
    then have "diff_loop2 dest i i recs
           = diff_loop2 dest (chunk_end dest i) (chunk_end dest i)
               (recs @ [literal dest i (chunk_end dest i)])"
      using True by (rule diff_loop2_unfold [rotated])
    moreover have "length dest - chunk_end dest i < length dest - i"
      using True chunk_end_bounds(1) [OF True] by linarith
    ultimately show ?thesis using less.hyps by simp
  qed
qed

lemma from_diff_succeeds:
  assumes "length src \<le> length dest" "length dest \<le> 16777216"
  shows "\<exists>p. IPSPatch_from_diff src dest = Inr p"
proof -
  let ?i = "find_first src dest 0 (length src) (\<noteq>)"
  have "length src \<le> 16777216" using assms by linarith
  then obtain res where r: "diff_loop1 src dest ?i ?i [] = Inr res"
    using diff_loop1_succeeds by blast
  obtain i' ds' recs1 where res: "res = (i', ds', recs1)"
    by (cases res) auto
  have "ds' = i'"
    using diff_loop1_invariant [where I = "\<lambda>i recs. True", OF r [unfolded res]] by simp
  moreover obtain recs2 where "diff_loop2 dest i' i' recs1 = Inr recs2"
    using diff_loop2_succeeds [OF assms(2)] by blast
  ultimately show ?thesis
    using r res by (simp add: IPSPatch_from_diff_def)
qed

lemma from_diff_applies:
  assumes le: "length src \<le> length dest" and p: "IPSPatch_from_diff src dest = Inr p"
  shows "apply_all (records p) src = dest"
proof -
  let ?i = "find_first src dest 0 (length src) (\<noteq>)"
  obtain i' ds' recs1 where
    l1: "diff_loop1 src dest ?i ?i [] = Inr (i', ds', recs1)"
    and l2: "diff_loop2 dest i' ds' recs1 = Inr (records p)"
    using p by (rule from_diff_Inr)
  have i0: "?i \<le> length src"
    using find_first_le [of 0 "length src" src dest "(\<noteq>)"] by simp
  have "take ?i dest @ drop ?i src = take 0 dest @ drop 0 src"
  proof (rule take_drop_agree)
    fix j assume "0 \<le> j" "j < ?i"
    then have "\<not> src ! j \<noteq> dest ! j"
      using find_first_before [of 0 j src dest "length src" "(\<noteq>)"] i0 le by simp
    then show "src ! j = dest ! j" by simp
  qed (use i0 le in simp_all)
  then have init: "patched_up_to src dest ?i []"
    using i0 by (simp add: patched_up_to_def)
  have step1: "patched_up_to src dest (scan_next src dest i)
                 (recs @ [literal dest i (scan_end src dest i)])"
    if "i < length src" "patched_up_to src dest i recs" for i recs
    using patched_up_to_step [OF le that] .
  have "patched_up_to src dest i' recs1 \<and> ds' = i' \<and> \<not> i' < length src"
    using diff_loop1_invariant [where I = "patched_up_to src dest", OF l1 init step1] by blast
  then have e: "i' = length src" "ds' = i'" "apply_all recs1 src = take i' dest"
    by (simp_all add: patched_up_to_def)
  have init2: "i' \<le> length dest \<and> apply_all recs1 src = take i' dest"
    using e le by simp
  have step2: "chunk_end dest i \<le> length dest
         \<and> apply_all (recs @ [literal dest i (chunk_end dest i)]) src = take (chunk_end dest i) dest"
    if "i < length dest" "i \<le> length dest \<and> apply_all recs src = take i dest" for i recs
    using patched_chunk_step [OF that] .
  have "\<exists>j. (j \<le> length dest \<and> apply_all (records p) src = take j dest) \<and> \<not> j < length dest"
    using diff_loop2_invariant
      [where I = "\<lambda>i recs. i \<le> length dest \<and> apply_all recs src = take i dest",
       OF l2 [unfolded e(2)] init2 step2] by blast
  then show ?thesis by auto
qed

text \<open>C1, as the claim states it, fails: for a source of one byte and an empty target the
  diff has no records, and applying it gives the source back, not the target. No record
  shortens a buffer.\<close>

theorem shorter_target_counterexample:
  "IPSPatch_from_diff [0x41] [] = Inr \<lparr>records = []\<rparr>
   \<and> IPSPatch_apply \<lparr>records = []\<rparr> [0x41] False = (Some [0x41], [0x41])"
  by (simp add: IPSPatch_from_diff_def diff_loop1.simps diff_loop2.simps find_first_def
        pyslice_def IPSPatch_apply_def)

text \<open>C1, amended. For a target at least as long as the source: \<open>from_diff\<close> returns a
  patch when the target has at most 2^24 bytes, so that every offset fits its field; and
  whenever it returns a patch, applying the patch to the source returns the target and
  leaves the source as it was. The bytes of the target after the end of the source are
  all in records.\<close>

theorem diff_then_apply:
  assumes "length src \<le> length dest"
  shows "(length dest \<le> 16777216 \<longrightarrow> (\<exists>p. IPSPatch_from_diff src dest = Inr p))
         \<and> (\<forall>p. IPSPatch_from_diff src dest = Inr p \<longrightarrow>
                IPSPatch_apply p src False = (Some dest, src))"
  using assms from_diff_succeeds [of src dest] from_diff_applies [of src dest]
  by (simp add: IPSPatch_apply_def)

lemma example_two_records:
  "IPSPatch_from_diff [1, 2, 3] [1, 9, 3, 4, 5]
     = Inr \<lparr>records = [\<lparr>offset = 1, data = [9], rle_size = 0\<rparr>,
                       \<lparr>offset = 3, data = [4, 5], rle_size = 0\<rparr>]\<rparr>"
  by (simp add: IPSPatch_from_diff_def diff_loop1.simps diff_loop2.simps find_first_def
        pyslice_def IPSPatchRecord_init_def ips_consts)

theorem diff_then_apply_witness:
  "length [1, 2, 3 :: byte] \<le> length [1, 9, 3, 4, 5 :: byte]
   \<and> IPSPatch_from_diff [1, 2, 3] [1, 9, 3, 4, 5]
     = Inr \<lparr>records = [\<lparr>offset = 1, data = [9], rle_size = 0\<rparr>,
                       \<lparr>offset = 3, data = [4, 5], rle_size = 0\<rparr>]\<rparr>
   \<and> IPSPatch_apply \<lparr>records = [\<lparr>offset = 1, data = [9], rle_size = 0\<rparr>,
                                  \<lparr>offset = 3, data = [4, 5], rle_size = 0\<rparr>]\<rparr>
         [1, 2, 3] False = (Some [1, 9, 3, 4, 5], [1, 2, 3])"
proof -
  have h: "length [1, 2, 3 :: byte] \<le> length [1, 9, 3, 4, 5 :: byte]" by simp
  show ?thesis
    using diff_then_apply [OF h] example_two_records by simp
qed

theorem diff_records_in_order_witness:
  "IPSPatch_from_diff [1, 2, 3] [1, 9, 3, 4, 5]
     = Inr \<lparr>records = [\<lparr>offset = 1, data = [9], rle_size = 0\<rparr>,
                       \<lparr>offset = 3, data = [4, 5], rle_size = 0\<rparr>]\<rparr>
   \<and> sorted_wrt (\<lambda>a b. offset a < offset b \<and> offset a + applied_size a \<le> offset b)
         [\<lparr>offset = 1, data = [9], rle_size = 0\<rparr>, \<lparr>offset = 3, data = [4, 5], rle_size = 0\<rparr>]"
  using diff_records_in_order [OF example_two_records] example_two_records by simp

end
